theory Spec2Isabelle
  imports Main "HOL-Library.Word"
begin

section \<open>The SIEVE cache of \<^verbatim>\<open>cache.go\<close>\<close>

text \<open>
  The Go package keeps its entries in a \<^verbatim>\<open>container/list\<close> doubly linked list,
  finds them through a map from keys to list elements, and remembers a scan
  position (the hand) between evictions. The hand and the map hold pointers
  into the list, and \<^verbatim>\<open>Delete\<close> removes an element the hand may still point
  to, so the embedding keeps an explicit store: a list element is an address,
  the store maps every address to the \<^verbatim>\<open>nodeEntry\<close> the element carries, and
  the list itself is the sequence of the addresses linked into it, front
  first. A Go pointer that may be \<^verbatim>\<open>nil\<close> is an \<open>option\<close>.
\<close>

subsection \<open>Data model\<close>

text \<open>The three package-level error values. A Go \<^verbatim>\<open>error\<close> that may be
  \<^verbatim>\<open>nil\<close> is an \<open>error option\<close>.\<close>

datatype error = ErrKeyNotFound | ErrEmptyCache | ErrInvalidCapacity

text \<open>A method either returns or panics (a nil pointer dereference in
  \<^verbatim>\<open>evict\<close>).\<close>

datatype 'a outcome = Returns 'a | Panics

type_synonym int64 = "64 word"

type_synonym element = nat

text \<open>\<^verbatim>\<open>nodeEntry\<close>; the field \<^verbatim>\<open>value\<close> is called \<open>val\<close> here.\<close>

record ('k, 'v) nodeEntry =
  visited :: bool
  key :: 'k
  val :: 'v

text \<open>\<^verbatim>\<open>Item\<close>, the exported key-value pair.\<close>

record ('k, 'v) Item =
  Key :: 'k
  Value :: 'v

text \<open>
  \<^verbatim>\<open>Cache\<close>. The fields \<open>capacity\<close>, \<open>size_c\<close> (Go: \<^verbatim>\<open>size\<close>), \<open>q\<close>, \<open>keysMap\<close>
  and \<open>hand\<close> are those of the struct. The last two fields are the part of
  the Go heap the cache reaches: \<open>nodes\<close> gives the entry behind every
  element address, and \<open>heap_top\<close> is the next address \<^verbatim>\<open>PushFront\<close>
  allocates.
\<close>

record ('k, 'v) Cache =
  capacity :: int64
  size_c :: int64
  q :: "element list"
  keysMap :: "'k \<rightharpoonup> element"
  hand :: "element option"
  nodes :: "element \<Rightarrow> ('k, 'v) nodeEntry"
  heap_top :: element

text \<open>
  Go's zero value of a type (\<^verbatim>\<open>var value V\<close>) is the constant \<open>default\<close> of
  the type class of that name. The zero value of a Go string is the empty
  string.
\<close>

instantiation list :: (type) default
begin
definition default_list :: "'a list" where
  "default_list = []"
instance ..
end

subsection \<open>The operations of \<^verbatim>\<open>container/list\<close> the cache uses\<close>

text \<open>
  \<^verbatim>\<open>l.Back()\<close>: the last element, or \<^verbatim>\<open>nil\<close> when the list is empty.
\<close>

definition Back :: "element list \<Rightarrow> element option" where
  "Back l = (if length l = 0 then None else Some (last l))"

text \<open>
  \<^verbatim>\<open>e.Prev()\<close>, for the list \<open>l\<close> of the cache: the element linked before \<open>e\<close>,
  or \<^verbatim>\<open>nil\<close> when \<open>e\<close> is the front element. \<^verbatim>\<open>Remove\<close> sets the \<^verbatim>\<open>list\<close> field of
  the element it unlinks to \<^verbatim>\<open>nil\<close>, and \<^verbatim>\<open>Prev\<close> answers \<^verbatim>\<open>nil\<close> for such an
  element: that is the case of an \<open>e\<close> that does not occur in \<open>l\<close>.
\<close>

fun Prev :: "element list \<Rightarrow> element \<Rightarrow> element option" where
  "Prev [] e = None"
| "Prev (x # l) e =
     (if x = e then None
      else (case l of [] \<Rightarrow> None | y # _ \<Rightarrow> if y = e then Some x else Prev l e))"

text \<open>
  \<^verbatim>\<open>l.Remove(e)\<close> unlinks \<open>e\<close> if it is an element of \<open>l\<close> and does nothing
  otherwise; the value it returns is the entry of \<open>e\<close>, read from the store.
\<close>

definition Remove :: "element list \<Rightarrow> element \<Rightarrow> element list" where
  "Remove l e = (if e \<in> set l then remove1 e l else l)"

text \<open>\<^verbatim>\<open>l.PushFront(v)\<close> allocates a new element carrying \<open>v\<close> and links it
  at the front.\<close>

definition PushFront ::
  "('k, 'v) Cache \<Rightarrow> ('k, 'v) nodeEntry \<Rightarrow> element \<times> ('k, 'v) Cache" where
  "PushFront c v =
     (let e = heap_top c
      in (e, c\<lparr>nodes := (nodes c)(e := v), q := e # q c, heap_top := Suc e\<rparr>))"

subsection \<open>The methods of \<^verbatim>\<open>Cache\<close>\<close>

text \<open>\<^verbatim>\<open>init\<close>: a fresh list and map; the elements of the old list are
  no longer reachable.\<close>

definition init :: "('k, 'v) Cache \<Rightarrow> ('k, 'v) Cache" where
  "init c = c\<lparr>size_c := 0, q := [], keysMap := Map.empty, hand := None\<rparr>"

definition NewCache :: "int64 \<Rightarrow> ('k::default, 'v::default) Cache" where
  "NewCache cap =
     init \<lparr>capacity = cap, size_c = 0, q = [], keysMap = Map.empty, hand = None,
           nodes = (\<lambda>_. \<lparr>visited = False, key = default, val = default\<rparr>),
           heap_top = 0\<rparr>"

definition Size :: "('k, 'v) Cache \<Rightarrow> int64" where
  "Size c = size_c c"

definition Capacity :: "('k, 'v) Cache \<Rightarrow> int64" where
  "Capacity c = capacity c"

definition Get ::
  "('k, 'v::default) Cache \<Rightarrow> 'k \<Rightarrow> ('v \<times> error option) \<times> ('k, 'v) Cache" where
  "Get c k =
     (case keysMap c k of
        None \<Rightarrow> ((default, Some ErrKeyNotFound), c)
      | Some ele \<Rightarrow>
          (let entry = nodes c ele;
               c1 = c\<lparr>nodes := (nodes c)(ele := entry\<lparr>visited := True\<rparr>)\<rparr>
           in ((val entry, None), c1)))"

text \<open>
  \<^verbatim>\<open>Keys\<close> and \<^verbatim>\<open>Items\<close> range over the map, whose iteration order Go leaves
  unspecified: each key of the map is appended once. The slice is modelled
  by the set of its members, its length by the cardinality. \<^verbatim>\<open>Print\<close> writes
  the entries to standard output and changes nothing; it has no counterpart
  here.
\<close>

definition Keys :: "('k, 'v) Cache \<Rightarrow> 'k set" where
  "Keys c = dom (keysMap c)"

definition Items :: "('k, 'v) Cache \<Rightarrow> ('k, 'v) Item set" where
  "Items c =
     (\<lambda>k. \<lparr>Key = k, Value = val (nodes c (the (keysMap c k)))\<rparr>) ` dom (keysMap c)"

definition Clear :: "('k, 'v) Cache \<Rightarrow> ('k, 'v) Cache" where
  "Clear c = init c"

definition Delete ::
  "('k, 'v::default) Cache \<Rightarrow> 'k \<Rightarrow> ('v \<times> error option) \<times> ('k, 'v) Cache" where
  "Delete c k =
     (case keysMap c k of
        None \<Rightarrow> ((default, Some ErrKeyNotFound), c)
      | Some ele \<Rightarrow>
          (let c1 = c\<lparr>keysMap := (keysMap c)(k := None)\<rparr>;
               c2 = c1\<lparr>q := Remove (q c1) ele\<rparr>;
               entry = nodes c2 ele
           in ((val entry, None), c2)))"

definition Contains :: "('k, 'v) Cache \<Rightarrow> 'k \<Rightarrow> bool \<times> ('k, 'v) Cache" where
  "Contains c k = (keysMap c k \<noteq> None, c)"

text \<open>
  The scan loop of \<^verbatim>\<open>evict\<close>. \<open>cur\<close> is the Go variable \<^verbatim>\<open>curr\<close>; reading
  \<^verbatim>\<open>curr.Value\<close> when it is \<^verbatim>\<open>nil\<close> panics. The loop returns the cache with the
  flags it has cleared and the element it stopped at.
\<close>

function evict_loop ::
  "('k, 'v) Cache \<Rightarrow> element option \<Rightarrow> (('k, 'v) Cache \<times> element) outcome" where
  "evict_loop c None = Panics"
| "evict_loop c (Some e) =
     (let entry = nodes c e in
      if \<not> visited entry then Returns (c, e)
      else
        (let c1 = c\<lparr>nodes := (nodes c)(e := entry\<lparr>visited := False\<rparr>)\<rparr>;
             cur = Prev (q c1) e;
             cur = (if cur = None then Back (q c1) else cur)
         in evict_loop c1 cur))"
  by pat_completeness auto

text \<open>The loop ends: every round clears one more visited flag among the
  current element and the elements of the list.\<close>

definition visited_in :: "('k, 'v) Cache \<Rightarrow> element option \<Rightarrow> nat" where
  "visited_in c cur =
     (case cur of
        None \<Rightarrow> 0
      | Some e \<Rightarrow> Suc (card {n \<in> insert e (set (q c)). visited (nodes c n)}))"

lemma Prev_mem: "Prev l e = Some p \<Longrightarrow> p \<in> set l"
  by (induction l e rule: Prev.induct) (auto split: if_splits list.splits)

lemma Back_mem: "Back l = Some p \<Longrightarrow> p \<in> set l"
  by (auto simp: Back_def split: if_splits)

termination evict_loop
proof (relation "measure (\<lambda>(c, cur). visited_in c cur)", goal_cases)
  case 1
  show ?case by simp
next
  case (2 c e entry c1 cur cur')
  show ?case
  proof (cases cur')
    case None
    then show ?thesis by (simp add: visited_in_def)
  next
    case (Some n)
    have n: "n \<in> set (q c)"
      using 2 Some
      by (auto split: if_splits dest: Prev_mem [OF sym] Back_mem [OF sym])
    have vis: "visited (nodes c e)" using 2 by simp
    have "{m \<in> insert n (set (q c1)). visited (nodes c1 m)}
          \<subset> {m \<in> insert e (set (q c)). visited (nodes c m)}"
      using n vis 2 by auto
    then have "card {m \<in> insert n (set (q c1)). visited (nodes c1 m)}
          < card {m \<in> insert e (set (q c)). visited (nodes c m)}"
      by (intro psubset_card_mono) auto
    then show ?thesis using Some by (simp add: visited_in_def)
  qed
qed

declare evict_loop.simps [simp del]

definition evict ::
  "('k::default, 'v) Cache \<Rightarrow> (('k \<times> error option) \<times> ('k, 'v) Cache) outcome" where
  "evict c =
     (if size_c c = 0 then Returns ((default, Some ErrEmptyCache), c)
      else
        (let cur = hand c;
             cur = (if cur = None then Back (q c) else cur)
         in case evict_loop c cur of
              Panics \<Rightarrow> Panics
            | Returns (c1, e) \<Rightarrow>
                (let c2 = c1\<lparr>hand := Prev (q c1) e\<rparr>;
                     c3 = c2\<lparr>q := Remove (q c2) e\<rparr>;
                     c4 = c3\<lparr>size_c := size_c c3 - 1\<rparr>;
                     entry = nodes c4 e;
                     c5 = c4\<lparr>keysMap := (keysMap c4)(key entry := None)\<rparr>
                 in Returns ((key entry, None), c5))))"

definition Evict ::
  "('k::default, 'v) Cache \<Rightarrow> (('k \<times> error option) \<times> ('k, 'v) Cache) outcome" where
  "Evict c = evict c"

definition Set ::
  "('k::default, 'v::default) Cache \<Rightarrow> 'k \<Rightarrow> 'v \<Rightarrow> ('k, 'v) Cache outcome" where
  "Set c k v =
     (if capacity c \<le>s 0 then Returns c
      else
        (case Get c k of
           ((_, None), c1) \<Rightarrow> Returns c1
         | ((_, Some _), c1) \<Rightarrow>
             (case (if size_c c1 = capacity c1
                    then (case evict c1 of
                            Panics \<Rightarrow> Panics
                          | Returns (_, c2) \<Rightarrow> Returns c2)
                    else Returns c1) of
                Panics \<Rightarrow> Panics
              | Returns c2 \<Rightarrow>
                  (let (element, c3) = PushFront c2 \<lparr>visited = False, key = k, val = v\<rparr>;
                       c4 = c3\<lparr>keysMap := (keysMap c3)(k \<mapsto> element)\<rparr>
                   in Returns (c4\<lparr>size_c := size_c c4 + 1\<rparr>)))))"

text \<open>The loop of \<^verbatim>\<open>Resize\<close>, with its counter \<^verbatim>\<open>keysToEvictCount\<close> and the
  slice \<^verbatim>\<open>evictedKeys\<close>.\<close>

lemma sint_dec: "0 < sint (k::int64) \<Longrightarrow> sint (k - 1) = sint k - 1"
proof -
  assume a: "0 < sint k"
  have "sint k < 2 ^ 63" using sint_lt [of k] by simp
  then have "signed_take_bit 63 (sint k - 1) = sint k - 1"
    using a by (intro signed_take_bit_int_eq_self) auto
  then show ?thesis by (simp add: sint_word_ariths)
qed

function Resize_loop ::
  "('k::default, 'v) Cache \<Rightarrow> int64 \<Rightarrow> 'k list \<Rightarrow> ('k list \<times> ('k, 'v) Cache) outcome" where
  "Resize_loop c keysToEvictCount evictedKeys =
     (if 0 <s keysToEvictCount then
        (case evict c of
           Panics \<Rightarrow> Panics
         | Returns ((k, err), c1) \<Rightarrow>
             Resize_loop c1 (keysToEvictCount - 1)
               (if err = None then evictedKeys @ [k] else evictedKeys))
      else Returns (evictedKeys, c))"
  by pat_completeness auto
termination
  by (relation "measure (\<lambda>(c, n, ks). nat (sint n))")
     (simp_all add: word_sless_alt sint_dec)

declare Resize_loop.simps [simp del]

definition Resize ::
  "('k::default, 'v) Cache \<Rightarrow> int64 \<Rightarrow> ('k list \<times> ('k, 'v) Cache) outcome" where
  "Resize c newCapacity =
     (if capacity c \<le>s newCapacity then Returns ([], c\<lparr>capacity := newCapacity\<rparr>)
      else
        (case Resize_loop c (Size c - newCapacity) [] of
           Panics \<Rightarrow> Panics
         | Returns (evictedKeys, c1) \<Rightarrow>
             Returns (evictedKeys, c1\<lparr>capacity := newCapacity\<rparr>)))"

subsection \<open>Running several calls\<close>

text \<open>A panic ends a run; otherwise the next call works on the cache the
  previous one left.\<close>

fun Sets ::
  "('k::default, 'v::default) Cache \<Rightarrow> ('k \<times> 'v) list \<Rightarrow> ('k, 'v) Cache outcome" where
  "Sets c [] = Returns c"
| "Sets c ((k, v) # kvs) =
     (case Set c k v of Panics \<Rightarrow> Panics | Returns c1 \<Rightarrow> Sets c1 kvs)"

fun Gets :: "('k, 'v::default) Cache \<Rightarrow> 'k list \<Rightarrow> ('k, 'v) Cache" where
  "Gets c [] = c"
| "Gets c (k # ks) = Gets (snd (Get c k)) ks"

definition then_call :: "'a outcome \<Rightarrow> ('a \<Rightarrow> 'b outcome) \<Rightarrow> 'b outcome" where
  "then_call r f = (case r of Panics \<Rightarrow> Panics | Returns x \<Rightarrow> f x)"

text \<open>What a call that also leaves a cache hands back to its caller, if it
  returns at all.\<close>

fun result_of :: "('a \<times> 's) outcome \<Rightarrow> 'a option" where
  "result_of (Returns (r, s)) = Some r"
| "result_of Panics = None"

text \<open>
  The public calls that change or may change the cache, and runs of them. A
  call that returns a value besides is run for its effect on the cache.
\<close>

datatype ('k, 'v) call =
    CallSet 'k 'v | CallGet 'k | CallContains 'k | CallDelete 'k
  | CallEvict | CallResize int64 | CallClear

fun do_call ::
  "('k::default, 'v::default) Cache \<Rightarrow> ('k, 'v) call \<Rightarrow> ('k, 'v) Cache outcome" where
  "do_call c (CallSet k v) = Set c k v"
| "do_call c (CallGet k) = Returns (snd (Get c k))"
| "do_call c (CallContains k) = Returns (snd (Contains c k))"
| "do_call c (CallDelete k) = Returns (snd (Delete c k))"
| "do_call c CallEvict = then_call (Evict c) (\<lambda>(r, c1). Returns c1)"
| "do_call c (CallResize n) = then_call (Resize c n) (\<lambda>(r, c1). Returns c1)"
| "do_call c CallClear = Returns (Clear c)"

fun run ::
  "('k::default, 'v::default) Cache \<Rightarrow> ('k, 'v) call list \<Rightarrow> ('k, 'v) Cache outcome" where
  "run c [] = Returns c"
| "run c (x # xs) = then_call (do_call c x) (\<lambda>c1. run c1 xs)"

fun is_Delete :: "('k, 'v) call \<Rightarrow> bool" where
  "is_Delete (CallDelete k) = True"
| "is_Delete _ = False"

section \<open>Definitions the statements use\<close>

text \<open>\<open>n\<close> calls of \<^verbatim>\<open>evict\<close> in a row, collecting the keys of the calls that
  succeed, in the order of the calls.\<close>

fun evict_times ::
  "nat \<Rightarrow> ('k::default, 'v) Cache \<Rightarrow> ('k list \<times> ('k, 'v) Cache) outcome" where
  "evict_times 0 c = Returns ([], c)"
| "evict_times (Suc n) c =
     (case evict c of
        Panics \<Rightarrow> Panics
      | Returns ((k, err), c1) \<Rightarrow>
          (case evict_times n c1 of
             Panics \<Rightarrow> Panics
           | Returns (ks, c2) \<Rightarrow> Returns ((if err = None then [k] else []) @ ks, c2)))"

text \<open>
  The insertion as the specification words it: a new entry for \<open>k\<close> at the
  head of the entry store with the visited flag unset, registered in the
  index, and \<open>size\<close> incremented.
\<close>

definition insert_at_head :: "('k, 'v) Cache \<Rightarrow> 'k \<Rightarrow> 'v \<Rightarrow> ('k, 'v) Cache" where
  "insert_at_head c k v =
     c\<lparr>nodes := (nodes c)(heap_top c := \<lparr>visited = False, key = k, val = v\<rparr>),
       q := heap_top c # q c,
       heap_top := Suc (heap_top c),
       keysMap := (keysMap c)(k \<mapsto> heap_top c),
       size_c := size_c c + 1\<rparr>"

subsection \<open>The eviction scan, as the specification describes it\<close>

text \<open>
  The scan starts at the hand if it is set and at the tail of the entry
  store otherwise.
\<close>

definition scan_start :: "('k, 'v) Cache \<Rightarrow> element" where
  "scan_start c = (case hand c of Some h \<Rightarrow> h | None \<Rightarrow> last (q c))"

text \<open>
  The order in which a scan that starts at \<open>s\<close> reaches the entries of the
  list \<open>l\<close>: \<open>s\<close> itself, then its predecessors up to the head, then, wrapping
  to the tail, the entries behind \<open>s\<close> from the tail back towards \<open>s\<close>.
\<close>

definition scan_order :: "element list \<Rightarrow> element \<Rightarrow> element list" where
  "scan_order l s =
     s # rev (takeWhile (\<lambda>x. x \<noteq> s) l) @ rev (tl (dropWhile (\<lambda>x. x \<noteq> s) l))"

text \<open>The store with the visited flag cleared on the elements of \<open>S\<close>.\<close>

definition unvisit ::
  "(element \<Rightarrow> ('k, 'v) nodeEntry) \<Rightarrow> element set \<Rightarrow> element \<Rightarrow> ('k, 'v) nodeEntry" where
  "unvisit nd S = (\<lambda>e. if e \<in> S then (nd e)\<lparr>visited := False\<rparr> else nd e)"

text \<open>
  The entries the scan passes are the visited ones it reaches before the
  first unvisited one; that one is the victim. If every entry is visited the
  scan clears them all and comes back to \<open>s\<close>, which is then unvisited.
\<close>

definition scan_passed :: "('k, 'v) Cache \<Rightarrow> element \<Rightarrow> element list" where
  "scan_passed c s = takeWhile (\<lambda>e. visited (nodes c e)) (scan_order (q c) s)"

definition scan_victim :: "('k, 'v) Cache \<Rightarrow> element \<Rightarrow> element" where
  "scan_victim c s =
     (case dropWhile (\<lambda>e. visited (nodes c e)) (scan_order (q c) s) of
        [] \<Rightarrow> s
      | v # _ \<Rightarrow> v)"

definition sieve_passed :: "('k, 'v) Cache \<Rightarrow> element list" where
  "sieve_passed c = scan_passed c (scan_start c)"

definition sieve_victim :: "('k, 'v) Cache \<Rightarrow> element" where
  "sieve_victim c = scan_victim c (scan_start c)"

text \<open>
  The invariants of the data model that concern the entry store: no element
  is linked twice (which holds of every Go list), the hand, when set, points
  to an element of the list, and \<open>size\<close> is the number of elements.
\<close>

definition store_inv :: "('k, 'v) Cache \<Rightarrow> bool" where
  "store_inv c =
     (distinct (q c) \<and>
      (case hand c of None \<Rightarrow> True | Some h \<Rightarrow> h \<in> set (q c)) \<and>
      sint (size_c c) = int (length (q c)))"

text \<open>
  Every element of the list lies below the next address to allocate (which
  holds of every Go heap), and the index holds exactly the keys of the
  entries in the list, each at its element. Together with the entry-store
  invariants these are the invariants of the data model.
\<close>

definition fresh_top :: "('k, 'v) Cache \<Rightarrow> bool" where
  "fresh_top c = (\<forall>e\<in>set (q c). e < heap_top c)"

definition index_inv :: "('k, 'v) Cache \<Rightarrow> bool" where
  "index_inv c = (\<forall>k e. keysMap c k = Some e \<longleftrightarrow> e \<in> set (q c) \<and> key (nodes c e) = k)"

definition cache_inv :: "('k, 'v) Cache \<Rightarrow> bool" where
  "cache_inv c = (store_inv c \<and> fresh_top c \<and> index_inv c)"

subsection \<open>A cache of three entries\<close>

text \<open>The cache after \<^verbatim>\<open>NewCache(3); Set("a", "A"); Set("b", "B"); Set("c", "C")\<close>.\<close>

definition three_entries :: "(string, string) Cache" where
  "three_entries =
     insert_at_head (insert_at_head (insert_at_head (NewCache 3) ''a'' ''A'') ''b'' ''B'')
       ''c'' ''C''"

section \<open>Auxiliary facts\<close>

lemmas run_defs =
  Set_def NewCache_def init_def Get_def evict_def Evict_def PushFront_def Back_def
  Remove_def Delete_def Size_def Keys_def then_call_def word_sle_eq evict_loop.simps

subsection \<open>The scan returns whenever the list is not empty\<close>



subsection \<open>\<^verbatim>\<open>Prev\<close> on a list without repetitions\<close>

lemma Prev_front: "Prev (b # ys) b = None"
  by simp

lemma Prev_next: "distinct (xs @ a # b # ys) \<Longrightarrow> Prev (xs @ a # b # ys) b = Some a"
proof (induction xs)
  case Nil
  then show ?case by simp
next
  case (Cons x xs)
  then show ?case by (cases xs) auto
qed

lemma Prev_last_seg:
  assumes "distinct (pre @ seg @ s # post)" "seg \<noteq> []"
  shows "Prev (pre @ seg @ s # post) s = Some (last seg)"
proof -
  have "pre @ seg @ s # post = (pre @ butlast seg) @ last seg # s # post"
    using assms(2) by simp
  then show ?thesis using Prev_next [of "pre @ butlast seg" "last seg" s post] assms(1)
    by metis
qed

lemma Prev_distinct: "distinct l \<Longrightarrow> Prev l e = Some p \<Longrightarrow> p \<noteq> e"
  by (induction l e rule: Prev.induct) (auto split: if_splits list.splits)


lemma Prev_nth:
  "distinct l \<Longrightarrow> i < length l \<Longrightarrow>
   Prev l (l ! i) = (if i = 0 then None else Some (l ! (i - 1)))"
proof (cases i)
  case 0
  assume "i < length l"
  then show ?thesis using 0 by (cases l) auto
next
  case (Suc j)
  assume d: "distinct l" and i: "i < length l"
  have "l = take j l @ l ! j # l ! Suc j # drop (Suc (Suc j)) l"
    using i Suc by (metis Cons_nth_drop_Suc Suc_lessD append_take_drop_id)
  then show ?thesis using Prev_next [of "take j l" "l ! j" "l ! Suc j" "drop (Suc (Suc j)) l"] d Suc
    by simp
qed

subsection \<open>What the scan loop computes\<close>

lemma unvisit_empty: "unvisit nd {} = nd"
  by (simp add: unvisit_def)

lemma unvisit_upd:
  "unvisit (nd(s := (nd s)\<lparr>visited := False\<rparr>)) S = unvisit nd (insert s S)"
  by (auto simp: unvisit_def fun_eq_iff)

lemma unvisit_single: "unvisit nd {s} = nd(s := (nd s)\<lparr>visited := False\<rparr>)"
  by (auto simp: unvisit_def fun_eq_iff)

lemma unvisit_unvisit: "unvisit (unvisit nd S) T = unvisit nd (S \<union> T)"
  by (auto simp: unvisit_def fun_eq_iff)

lemma scan_descend:
  assumes "distinct (q c)" "q c = pre @ v # seg @ post"
    "\<not> visited (nodes c v)" "\<forall>x\<in>set seg. visited (nodes c x)"
  shows "evict_loop c (Some (last (v # seg))) =
           Returns (c\<lparr>nodes := unvisit (nodes c) (set seg)\<rparr>, v)"
  using assms
proof (induction seg arbitrary: c post rule: rev_induct)
  case Nil
  then show ?case by (simp add: unvisit_empty evict_loop.simps)
next
  case (snoc s seg)
  let ?c1 = "c\<lparr>nodes := (nodes c)(s := (nodes c s)\<lparr>visited := False\<rparr>)\<rparr>"
  have vs: "visited (nodes c s)" using snoc.prems by simp
  have sv: "s \<noteq> v" "s \<notin> set seg" using snoc.prems by auto
  have "distinct (pre @ (v # seg) @ s # post)" using snoc.prems by simp
  then have prev: "Prev (q c) s = Some (last (v # seg))"
    using Prev_last_seg [of pre "v # seg" s post] snoc.prems(2) by simp
  have ih: "evict_loop ?c1 (Some (last (v # seg))) =
          Returns (?c1\<lparr>nodes := unvisit (nodes ?c1) (set seg)\<rparr>, v)"
    using snoc.prems sv by (intro snoc.IH [where post = "s # post"]) auto
  have "evict_loop c (Some s) = evict_loop ?c1 (Some (last (v # seg)))"
    using vs prev by (simp add: Let_def evict_loop.simps)
  then show ?case using ih by (simp add: unvisit_upd)
qed

lemma scan_wrap:
  assumes "distinct (q c)" "q c = seg @ post" "seg \<noteq> []"
    "\<forall>x\<in>set seg. visited (nodes c x)"
  shows "evict_loop c (Some (last seg)) =
           evict_loop (c\<lparr>nodes := unvisit (nodes c) (set seg)\<rparr>) (Back (q c))"
  using assms
proof (induction seg arbitrary: c post rule: rev_induct)
  case Nil
  then show ?case by simp
next
  case (snoc s seg)
  let ?c1 = "c\<lparr>nodes := (nodes c)(s := (nodes c s)\<lparr>visited := False\<rparr>)\<rparr>"
  have vs: "visited (nodes c s)" using snoc.prems by simp
  show ?case
  proof (cases "seg = []")
    case True
    then have "Prev (q c) s = None" using snoc.prems(2) by simp
    then have step: "evict_loop c (Some s) = evict_loop ?c1 (Back (q c))"
      using vs by (simp add: Let_def evict_loop.simps)
    have l: "last (seg @ [s]) = s" by simp
    have e: "c\<lparr>nodes := unvisit (nodes c) (set (seg @ [s]))\<rparr> = ?c1"
      using True by (simp add: unvisit_single)
    show ?thesis unfolding l e by (rule step)
  next
    case False
    have sv: "s \<notin> set seg" using snoc.prems by auto
    have "distinct ([] @ seg @ s # post)" using snoc.prems by simp
    then have prev: "Prev (q c) s = Some (last seg)"
      using Prev_last_seg [of "[]" seg s post] snoc.prems(2) False by simp
    have ih: "evict_loop ?c1 (Some (last seg)) =
          evict_loop (?c1\<lparr>nodes := unvisit (nodes ?c1) (set seg)\<rparr>) (Back (q ?c1))"
      using snoc.prems sv False by (intro snoc.IH [where post = "s # post"]) auto
    have "evict_loop c (Some s) = evict_loop ?c1 (Some (last seg))"
      using vs prev by (simp add: Let_def evict_loop.simps)
    then show ?thesis using ih by (simp add: unvisit_upd)
  qed
qed

lemma takeWhile_until: "\<forall>x\<in>set xs. P x \<Longrightarrow> \<not> P v \<Longrightarrow> takeWhile P (xs @ v # ys) = xs"
  by (induction xs) auto

lemma dropWhile_until: "\<forall>x\<in>set xs. P x \<Longrightarrow> \<not> P v \<Longrightarrow> dropWhile P (xs @ v # ys) = v # ys"
  by (induction xs) auto

lemma split_at_start:
  "s \<in> set l \<Longrightarrow> l = takeWhile (\<lambda>x. x \<noteq> s) l @ s # tl (dropWhile (\<lambda>x. x \<noteq> s) l)"
  by (induction l) auto

lemma scan_result:
  assumes d: "distinct (q c)" and s: "s \<in> set (q c)"
  shows "scan_victim c s \<in> set (q c) \<and>
         evict_loop c (Some s) =
           Returns (c\<lparr>nodes := unvisit (nodes c) (set (scan_passed c s))\<rparr>, scan_victim c s)"
proof -
  define vis where "vis = (\<lambda>e. visited (nodes c e))"
  define A where "A = takeWhile (\<lambda>x. x \<noteq> s) (q c)"
  define B where "B = tl (dropWhile (\<lambda>x. x \<noteq> s) (q c))"
  have l: "q c = A @ s # B" unfolding A_def B_def using s by (rule split_at_start)
  have ord: "scan_order (q c) s = rev (A @ [s]) @ rev B"
    by (simp add: scan_order_def A_def B_def)
  have dis: "s \<notin> set A" "s \<notin> set B" "set A \<inter> set B = {}" "distinct A" "distinct B"
    using d l by auto
  show ?thesis
  proof (cases "\<exists>x\<in>set (A @ [s]). \<not> vis x")
    case True
    then obtain pre v seg where sp: "A @ [s] = pre @ v # seg" "\<not> vis v"
        and seg': "\<forall>z\<in>set seg. \<not> \<not> vis z"
      using split_list_last_prop [of "A @ [s]" "\<lambda>x. \<not> vis x"] by blast
    have seg: "\<forall>z\<in>set seg. vis z" using seg' by simp
    have "q c = (A @ [s]) @ B" using l by simp
    then have ql: "q c = pre @ v # seg @ B" using sp(1) by simp
    have "last (pre @ v # seg) = s" using sp(1) [symmetric] by simp
    then have la: "last (v # seg) = s" by simp
    have run: "evict_loop c (Some s) = Returns (c\<lparr>nodes := unvisit (nodes c) (set seg)\<rparr>, v)"
      using scan_descend [OF d ql] sp(2) seg la by (simp add: vis_def)
    have ord': "scan_order (q c) s = rev seg @ v # rev pre @ rev B"
      using ord sp(1) by simp
    have segr: "\<forall>x\<in>set (rev seg). vis x" using seg by simp
    have tw: "scan_passed c s = rev seg"
      unfolding scan_passed_def ord' vis_def [symmetric]
      by (rule takeWhile_until [OF segr sp(2)])
    have dwl: "dropWhile vis (rev seg @ v # rev pre @ rev B) = v # rev pre @ rev B"
      by (rule dropWhile_until [OF segr sp(2)])
    have dw: "scan_victim c s = v"
      unfolding scan_victim_def ord' vis_def [symmetric] dwl by simp
    have "v \<in> set (q c)" using ql by simp
    then show ?thesis using run tw dw by simp
  next
    case False
    then have allA: "\<forall>x\<in>set (A @ [s]). vis x" by blast
    let ?c1 = "c\<lparr>nodes := unvisit (nodes c) (set (A @ [s]))\<rparr>"
    define vis1 where "vis1 = (\<lambda>e. visited (nodes ?c1 e))"
    have vis1: "\<And>e. vis1 e = (vis e \<and> e \<notin> set (A @ [s]))"
      by (auto simp: vis1_def vis_def unvisit_def)
    have "q c = (A @ [s]) @ B" using l by simp
    then have w: "evict_loop c (Some (last (A @ [s]))) = evict_loop ?c1 (Back (q c))"
      using scan_wrap [OF d, of "A @ [s]" B] allA by (simp add: vis_def)
    have bk: "Back (q c) = Some (last (s # B))" using l by (simp add: Back_def)
    have "\<exists>x\<in>set (s # B). \<not> vis1 x" using vis1 by auto
    then obtain pre v seg where sp: "s # B = pre @ v # seg" "\<not> vis1 v"
        and seg': "\<forall>z\<in>set seg. \<not> \<not> vis1 z"
      using split_list_last_prop [of "s # B" "\<lambda>x. \<not> vis1 x"] by blast
    have seg: "\<forall>z\<in>set seg. vis1 z" using seg' by simp
    have ql: "q ?c1 = (A @ pre) @ v # seg @ []" using l sp(1) by simp
    have "last (pre @ v # seg) = last (s # B)" using sp(1) by simp
    then have la: "last (v # seg) = last (s # B)" by simp
    have d1: "distinct (q ?c1)" using d by simp
    have "evict_loop ?c1 (Some (last (v # seg))) =
            Returns (?c1\<lparr>nodes := unvisit (nodes ?c1) (set seg)\<rparr>, v)"
      using scan_descend [OF d1 ql] sp(2) seg by (simp add: vis1_def)
    then have run: "evict_loop c (Some s) =
        Returns (c\<lparr>nodes := unvisit (nodes c) (set (A @ [s]) \<union> set seg)\<rparr>, v)"
      using w bk la by (simp add: unvisit_unvisit)
    have vq: "v \<in> set (q c)" using l sp(1)
      by (metis Un_iff append_Cons in_set_conv_decomp set_append)
    show ?thesis
    proof (cases pre)
      case Nil
      then have vs: "v = s" "seg = B" using sp(1) by auto
      have allB: "\<forall>x\<in>set B. vis x" using seg vis1 vs by auto
      have all: "\<forall>x\<in>set (rev (A @ [s]) @ rev B). vis x" using allA allB by auto
      have tw: "scan_passed c s = rev (A @ [s]) @ rev B"
        unfolding scan_passed_def ord vis_def [symmetric]
        using all by (subst takeWhile_eq_all_conv) blast
      have "dropWhile vis (rev (A @ [s]) @ rev B) = []"
        using all by (subst dropWhile_eq_Nil_conv) blast
      then have dw: "scan_victim c s = s"
        unfolding scan_victim_def ord vis_def [symmetric] by simp
      have "set (scan_passed c s) = set (A @ [s]) \<union> set seg" using tw vs by auto
      then show ?thesis using run vq dw vs by simp
    next
      case (Cons a p)
      then have B: "a = s" "B = p @ v # seg" using sp(1) by auto
      have "v \<notin> set (A @ [s])" using dis B by auto
      then have nv: "\<not> vis v" using sp(2) vis1 by simp
      have segv: "\<forall>z\<in>set seg. vis z" using seg vis1 by simp
      have ord': "scan_order (q c) s = (rev (A @ [s]) @ rev seg) @ v # rev p"
        using ord B by simp
      have allp: "\<forall>x\<in>set (rev (A @ [s]) @ rev seg). vis x" using allA segv by auto
      have tw: "scan_passed c s = rev (A @ [s]) @ rev seg"
        unfolding scan_passed_def ord' vis_def [symmetric]
        by (rule takeWhile_until [OF allp nv])
      have dwl: "dropWhile vis ((rev (A @ [s]) @ rev seg) @ v # rev p) = v # rev p"
        by (rule dropWhile_until [OF allp nv])
      have dw: "scan_victim c s = v"
        unfolding scan_victim_def ord' vis_def [symmetric] dwl by simp
      have "set (scan_passed c s) = set (A @ [s]) \<union> set seg" using tw by auto
      then show ?thesis using run vq dw by simp
    qed
  qed
qed

lemma store_inv_nonempty:
  assumes "store_inv c" "size_c c \<noteq> 0"
  shows "q c \<noteq> []"
proof
  assume "q c = []"
  then have "sint (size_c c) = 0" using assms(1) by (simp add: store_inv_def)
  then show False using assms(2) by (simp add: signed_eq_0_iff)
qed

lemma scan_start_mem:
  assumes "store_inv c" "q c \<noteq> []"
  shows "scan_start c \<in> set (q c)"
    and "(if hand c = None then Back (q c) else hand c) = Some (scan_start c)"
  using assms by (auto simp: store_inv_def scan_start_def Back_def split: option.splits)

lemma key_unvisit: "key (unvisit nd S e) = key (nd e)"
  by (simp add: unvisit_def)

lemma evict_result:
  fixes c :: "('k::default, 'v) Cache"
  assumes "store_inv c" "size_c c \<noteq> 0"
  shows "sieve_victim c \<in> set (q c) \<and>
         evict c =
           Returns ((key (nodes c (sieve_victim c)), None),
             c\<lparr>nodes := unvisit (nodes c) (set (sieve_passed c)),
               hand := Prev (q c) (sieve_victim c),
               q := remove1 (sieve_victim c) (q c),
               size_c := size_c c - 1,
               keysMap := (keysMap c)(key (nodes c (sieve_victim c)) := None)\<rparr>)"
proof -
  have ne: "q c \<noteq> []" using assms by (rule store_inv_nonempty)
  have d: "distinct (q c)" using assms(1) by (simp add: store_inv_def)
  note st = scan_start_mem [OF assms(1) ne]
  have sr: "scan_victim c (scan_start c) \<in> set (q c)"
    "evict_loop c (Some (scan_start c)) =
       Returns (c\<lparr>nodes := unvisit (nodes c) (set (scan_passed c (scan_start c)))\<rparr>,
                scan_victim c (scan_start c))"
    using scan_result [OF d st(1)] by simp_all
  show ?thesis
    using assms(2) st(2) sr
    by (simp add: evict_def Let_def sieve_victim_def sieve_passed_def Remove_def key_unvisit)
qed



subsection \<open>\<^verbatim>\<open>evict\<close> keeps the entry-store invariants\<close>

lemma sint_size_dec:
  assumes "sint (k::int64) = int n" "0 < n"
  shows "sint (k - 1) = int (n - 1)"
  using assms sint_dec [of k] by (simp add: of_nat_diff)

lemma evict_keeps_store_inv:
  fixes c :: "('k::default, 'v) Cache"
  assumes "store_inv c"
  shows "\<exists>r c1. evict c = Returns (r, c1) \<and> store_inv c1"
proof (cases "size_c c = 0")
  case True
  then show ?thesis using assms by (simp add: evict_def)
next
  case False
  let ?v = "sieve_victim c"
  note ev = evict_result [OF assms False]
  have d: "distinct (q c)" and sz: "sint (size_c c) = int (length (q c))"
    using assms by (simp_all add: store_inv_def)
  have v: "?v \<in> set (q c)" using ev by simp
  have h: "case Prev (q c) ?v of None \<Rightarrow> True | Some h \<Rightarrow> h \<in> set (remove1 ?v (q c))"
    using d by (auto split: option.splits dest: Prev_mem Prev_distinct)
  have "0 < length (q c)" using v by (cases "q c") auto
  then have "sint (size_c c - 1) = int (length (remove1 ?v (q c)))"
    using sint_size_dec [OF sz] v by (simp add: length_remove1)
  then show ?thesis using ev d h by (auto simp: store_inv_def split: option.splits)
qed



lemma Resize_loop_evict_times:
  "Resize_loop c k acc =
     (case evict_times (nat (sint k)) c of
        Panics \<Rightarrow> Panics
      | Returns (ks, c1) \<Rightarrow> Returns (acc @ ks, c1))"
proof (induction c k acc rule: Resize_loop.induct)
  case (1 c k acc)
  show ?case
  proof (cases "0 <s k")
    case False
    then have "nat (sint k) = 0" by (simp add: word_sless_alt)
    then show ?thesis using False by (subst Resize_loop.simps) simp
  next
    case True
    then have pos: "0 < sint k" by (simp add: word_sless_alt)
    then have n: "nat (sint k) = Suc (nat (sint (k - 1)))" by (simp add: sint_dec)
    show ?thesis
    proof (cases "evict c")
      case Panics
      then show ?thesis using True n by (subst Resize_loop.simps) simp
    next
      case (Returns x)
      obtain key err c1 where x: "x = ((key, err), c1)" by (cases x) auto
      have ih: "Resize_loop c1 (k - 1) (if err = None then acc @ [key] else acc) =
           (case evict_times (nat (sint (k - 1))) c1 of
              Panics \<Rightarrow> Panics
            | Returns (ks, c2) \<Rightarrow>
                Returns ((if err = None then acc @ [key] else acc) @ ks, c2))"
        using "1.IH" [OF True Returns [unfolded x] refl refl] .
      show ?thesis
        using True n Returns x ih
        by (subst Resize_loop.simps) (auto split: outcome.splits)
    qed
  qed
qed

lemma evict_empty:
  fixes c :: "('k::default, 'v) Cache"
  assumes "store_inv c" "q c = []"
  shows "evict c = Returns ((default, Some ErrEmptyCache), c)"
proof -
  have "sint (size_c c) = 0" using assms by (simp add: store_inv_def)
  then have "size_c c = 0" by (simp add: signed_eq_0_iff)
  then show ?thesis by (simp add: evict_def)
qed

subsection \<open>The cache of three entries\<close>

lemma three_entries_run:
  "Sets (NewCache 3) [(''a'', ''A''), (''b'', ''B''), (''c'', ''C'')] = Returns three_entries"
  by (simp add: three_entries_def run_defs insert_at_head_def)

lemmas example_defs =
  three_entries_def insert_at_head_def NewCache_def init_def Get_def store_inv_def
  sieve_victim_def sieve_passed_def scan_victim_def scan_passed_def scan_start_def
  scan_order_def unvisit_def


subsection \<open>Every call but \<^verbatim>\<open>Delete\<close> keeps the invariants of the data model\<close>

lemma sint_inc: "0 \<le> sint (k::int64) \<Longrightarrow> sint k < 2 ^ 63 - 1 \<Longrightarrow> sint (k + 1) = sint k + 1"
proof -
  assume a: "0 \<le> sint k" "sint k < 2 ^ 63 - 1"
  then have "signed_take_bit 63 (sint k + 1) = sint k + 1"
    by (intro signed_take_bit_int_eq_self) auto
  then show ?thesis by (simp add: sint_word_ariths)
qed

lemma NewCache_inv: "cache_inv (NewCache cap)"
  by (simp add: cache_inv_def store_inv_def fresh_top_def index_inv_def NewCache_def init_def)

lemma Clear_inv: "cache_inv (Clear c)"
  by (simp add: cache_inv_def store_inv_def fresh_top_def index_inv_def Clear_def init_def)

lemma Get_inv: "cache_inv c \<Longrightarrow> cache_inv (snd (Get c k))"
  by (auto simp: cache_inv_def store_inv_def fresh_top_def index_inv_def Get_def Let_def
           split: option.splits)

lemma Get_q: "q (snd (Get c k)) = q c"
  by (simp add: Get_def Let_def split: option.splits)

lemma index_inj:
  assumes "index_inv c" "e1 \<in> set (q c)" "e2 \<in> set (q c)"
    "key (nodes c e1) = key (nodes c e2)"
  shows "e1 = e2"
proof -
  have "keysMap c (key (nodes c e1)) = Some e1" using assms(1,2) by (simp add: index_inv_def)
  moreover have "keysMap c (key (nodes c e1)) = Some e2"
    using assms(1,3,4) by (simp add: index_inv_def)
  ultimately show ?thesis by simp
qed

lemma evict_inv:
  fixes c :: "('k::default, 'v) Cache"
  assumes "cache_inv c"
  shows "\<exists>r c1. evict c = Returns (r, c1) \<and> cache_inv c1 \<and> length (q c1) \<le> length (q c)
           \<and> (\<forall>k. keysMap c k = None \<longrightarrow> keysMap c1 k = None)
           \<and> capacity c1 = capacity c \<and> (size_c c \<noteq> 0 \<longrightarrow> size_c c1 = size_c c - 1)"
proof (cases "size_c c = 0")
  case True
  then show ?thesis using assms by (simp add: evict_def)
next
  case False
  have si: "store_inv c" and fr: "fresh_top c" and ix: "index_inv c"
    using assms by (simp_all add: cache_inv_def)
  let ?v = "sieve_victim c"
  let ?c1 = "c\<lparr>nodes := unvisit (nodes c) (set (sieve_passed c)),
               hand := Prev (q c) ?v, q := remove1 ?v (q c), size_c := size_c c - 1,
               keysMap := (keysMap c)(key (nodes c ?v) := None)\<rparr>"
  have ev: "evict c = Returns ((key (nodes c ?v), None), ?c1)" and v: "?v \<in> set (q c)"
    using evict_result [OF si False] by simp_all
  obtain r c1 where e2: "evict c = Returns (r, c1)" "store_inv c1"
    using evict_keeps_store_inv [OF si] by blast
  have s1: "store_inv ?c1" using ev e2 by simp
  have d: "distinct (q c)" using si by (simp add: store_inv_def)
  have f1: "fresh_top ?c1" using fr by (auto simp: fresh_top_def dest: notin_set_remove1)
  have kv: "keysMap c (key (nodes c ?v)) = Some ?v" using ix v by (simp add: index_inv_def)
  have i1: "index_inv ?c1"
    unfolding index_inv_def
  proof (intro allI)
    fix k e
    show "keysMap ?c1 k = Some e \<longleftrightarrow> e \<in> set (q ?c1) \<and> key (nodes ?c1 e) = k"
    proof (cases "k = key (nodes c ?v)")
      case True
      have "\<not> (e \<in> set (q c) \<and> e \<noteq> ?v \<and> key (nodes c e) = k)"
        using index_inj [OF ix _ v] True by blast
      then show ?thesis using True d by (auto simp: key_unvisit)
    next
      case False
      have "keysMap c k = Some e \<longleftrightarrow> e \<in> set (q c) \<and> key (nodes c e) = k"
        using ix by (simp add: index_inv_def)
      moreover have "key (nodes c e) = k \<Longrightarrow> e \<noteq> ?v" using False by auto
      ultimately show ?thesis using False d by (auto simp: key_unvisit)
    qed
  qed
  have "length (q ?c1) \<le> length (q c)" by (simp add: length_remove1)
  then show ?thesis using ev s1 f1 i1 False by (simp add: cache_inv_def)
qed

lemma Set_unfold:
  "Set c k v =
     (if capacity c \<le>s 0 then Returns c
      else (case keysMap c k of
              Some e \<Rightarrow> Returns (snd (Get c k))
            | None \<Rightarrow>
                if size_c c = capacity c
                then then_call (evict c) (\<lambda>(r, c1). Returns (insert_at_head c1 k v))
                else Returns (insert_at_head c k v)))"
  by (simp add: Set_def Get_def PushFront_def insert_at_head_def Let_def then_call_def
           split: option.splits outcome.splits prod.splits)

lemma insert_inv:
  assumes "cache_inv c" "keysMap c k = None" "int (length (q c)) < 2 ^ 63 - 1"
  shows "cache_inv (insert_at_head c k v)"
proof -
  have si: "store_inv c" and fr: "fresh_top c" and ix: "index_inv c"
    using assms by (simp_all add: cache_inv_def)
  have top: "heap_top c \<notin> set (q c)" using fr by (auto simp: fresh_top_def)
  have sz: "sint (size_c c) = int (length (q c))" using si by (simp add: store_inv_def)
  have "sint (size_c c + 1) = int (length (q c)) + 1"
    using sint_inc [of "size_c c"] sz assms(3) by simp
  then have s1: "store_inv (insert_at_head c k v)"
    using si top by (auto simp: store_inv_def insert_at_head_def split: option.splits)
  have f1: "fresh_top (insert_at_head c k v)"
    using fr by (auto simp: fresh_top_def insert_at_head_def)
  have nok: "key (nodes c e) \<noteq> k" if "e \<in> set (q c)" for e
  proof
    assume "key (nodes c e) = k"
    then have "keysMap c k = Some e" using ix that by (simp add: index_inv_def)
    then show False using assms(2) by simp
  qed
  have i1: "index_inv (insert_at_head c k v)"
    unfolding index_inv_def
  proof (intro allI)
    fix k' e
    have old: "keysMap c k' = Some e \<longleftrightarrow> e \<in> set (q c) \<and> key (nodes c e) = k'"
      using ix by (simp add: index_inv_def)
    show "keysMap (insert_at_head c k v) k' = Some e \<longleftrightarrow>
          e \<in> set (q (insert_at_head c k v)) \<and> key (nodes (insert_at_head c k v) e) = k'"
      using old top nok [of e] by (auto simp: insert_at_head_def)
  qed
  show ?thesis using s1 f1 i1 by (simp add: cache_inv_def)
qed

lemma Set_inv:
  fixes c :: "('k::default, 'v::default) Cache"
  assumes "cache_inv c" "int (length (q c)) < 2 ^ 63 - 1"
  shows "\<exists>c1. Set c k v = Returns c1 \<and> cache_inv c1 \<and> length (q c1) \<le> Suc (length (q c))"
proof (cases "capacity c \<le>s 0")
  case True
  then show ?thesis using assms by (simp add: Set_unfold)
next
  case pos: False
  show ?thesis
  proof (cases "keysMap c k")
    case (Some e)
    then show ?thesis using pos assms Get_inv [of c k] by (simp add: Set_unfold Get_q)
  next
    case None
    show ?thesis
    proof (cases "size_c c = capacity c")
      case False
      then show ?thesis
        using pos None insert_inv [OF assms(1) None assms(2)]
        by (simp add: Set_unfold) (simp add: insert_at_head_def)
    next
      case True
      obtain r c1 where e: "evict c = Returns (r, c1)" "cache_inv c1"
          "length (q c1) \<le> length (q c)" "keysMap c1 k = None"
        using evict_inv [OF assms(1)] None by blast
      have "int (length (q c1)) < 2 ^ 63 - 1" using e(3) assms(2) by linarith
      then have "cache_inv (insert_at_head c1 k v)" using insert_inv [OF e(2) e(4)] by simp
      moreover have "length (q (insert_at_head c1 k v)) \<le> Suc (length (q c))"
        using e(3) by (simp add: insert_at_head_def)
      ultimately show ?thesis
        using pos None True e(1) by (simp add: Set_unfold then_call_def)
    qed
  qed
qed

lemma evict_times_inv:
  fixes c :: "('k::default, 'v) Cache"
  shows "cache_inv c \<Longrightarrow>
    \<exists>ks c1. evict_times n c = Returns (ks, c1) \<and> cache_inv c1 \<and> length (q c1) \<le> length (q c)"
proof (induction n arbitrary: c)
  case 0
  then show ?case by simp
next
  case (Suc n)
  obtain r c1 where e: "evict c = Returns (r, c1)" "cache_inv c1" "length (q c1) \<le> length (q c)"
    using evict_inv [OF Suc.prems] by blast
  obtain ks c2 where t: "evict_times n c1 = Returns (ks, c2)" "cache_inv c2"
      "length (q c2) \<le> length (q c1)"
    using Suc.IH [OF e(2)] by blast
  show ?case using e t by (cases r) simp
qed

lemma capacity_update_inv: "cache_inv (c\<lparr>capacity := n\<rparr>) = cache_inv c"
  by (simp add: cache_inv_def store_inv_def fresh_top_def index_inv_def cong: option.case_cong)

lemma Resize_inv:
  fixes c :: "('k::default, 'v) Cache"
  assumes "cache_inv c"
  shows "\<exists>ks c1. Resize c n = Returns (ks, c1) \<and> cache_inv c1 \<and> length (q c1) \<le> length (q c)"
proof (cases "capacity c \<le>s n")
  case True
  then show ?thesis using assms by (simp add: Resize_def capacity_update_inv)
next
  case False
  obtain ks c1 where t: "evict_times (nat (sint (Size c - n))) c = Returns (ks, c1)"
      "cache_inv c1" "length (q c1) \<le> length (q c)"
    using evict_times_inv [OF assms] by blast
  then show ?thesis
    using False by (simp add: Resize_def Resize_loop_evict_times capacity_update_inv)
qed

lemma do_call_inv:
  fixes c :: "('k::default, 'v::default) Cache"
  assumes "cache_inv c" "\<not> is_Delete x" "int (length (q c)) < 2 ^ 63 - 1"
  shows "\<exists>c1. do_call c x = Returns c1 \<and> cache_inv c1 \<and> length (q c1) \<le> Suc (length (q c))"
proof (cases x)
  case (CallSet k v)
  then show ?thesis using Set_inv [OF assms(1,3)] by simp
next
  case (CallGet k)
  then show ?thesis using Get_inv [OF assms(1)] by (simp add: Get_q)
next
  case (CallContains k)
  then show ?thesis using assms(1) by (simp add: Contains_def)
next
  case (CallDelete k)
  then show ?thesis using assms(2) by simp
next
  case CallEvict
  obtain r c1 where "evict c = Returns (r, c1)" "cache_inv c1" "length (q c1) \<le> length (q c)"
    using evict_inv [OF assms(1)] by blast
  then show ?thesis using CallEvict by (simp add: Evict_def then_call_def)
next
  case (CallResize n)
  obtain ks c1 where "Resize c n = Returns (ks, c1)" "cache_inv c1"
      "length (q c1) \<le> length (q c)"
    using Resize_inv [OF assms(1)] by blast
  then show ?thesis using CallResize by (simp add: then_call_def)
next
  case CallClear
  then show ?thesis using Clear_inv [of c] by (simp add: Clear_def init_def)
qed

lemma run_inv:
  fixes c :: "('k::default, 'v::default) Cache"
  shows "cache_inv c \<Longrightarrow> \<forall>x\<in>set xs. \<not> is_Delete x \<Longrightarrow>
    int (length (q c) + length xs) < 2 ^ 63 - 1 \<Longrightarrow>
    \<exists>c1. run c xs = Returns c1 \<and> cache_inv c1"
proof (induction xs arbitrary: c)
  case Nil
  then show ?case by simp
next
  case (Cons x xs)
  have "int (length (q c)) < 2 ^ 63 - 1" using Cons.prems(3) by simp
  then obtain c1 where d: "do_call c x = Returns c1" "cache_inv c1"
      "length (q c1) \<le> Suc (length (q c))"
    using do_call_inv [of c x] Cons.prems by auto
  have "int (length (q c1) + length xs) < 2 ^ 63 - 1" using d(3) Cons.prems(3) by simp
  then obtain c2 where "run c1 xs = Returns c2" "cache_inv c2"
    using Cons.IH [OF d(2)] Cons.prems(2) by auto
  then show ?case using d(1) by (simp add: then_call_def)
qed

lemma cache_inv_Keys:
  assumes "cache_inv c"
  shows "card (Keys c) = length (q c)" and "sint (Size c) = int (card (Keys c))"
proof -
  have si: "store_inv c" and ix: "index_inv c" using assms by (simp_all add: cache_inv_def)
  have "Keys c = (\<lambda>e. key (nodes c e)) ` set (q c)"
    using ix by (auto simp: Keys_def index_inv_def dom_def image_iff)
  moreover have "inj_on (\<lambda>e. key (nodes c e)) (set (q c))"
    using index_inj [OF ix] by (auto simp: inj_on_def)
  ultimately have "card (Keys c) = card (set (q c))" by (simp add: card_image)
  then show "card (Keys c) = length (q c)"
    using si by (simp add: store_inv_def distinct_card)
  then show "sint (Size c) = int (card (Keys c))" using si by (simp add: store_inv_def Size_def)
qed

text \<open>
  A run of fewer than \<open>2 ^ 63 - 1\<close> public calls on a new cache, none of them
  \<^verbatim>\<open>Delete\<close>, never panics and ends in a cache that satisfies the invariants
  of the data model; there \<^verbatim>\<open>Size()\<close> is the number of keys in the index and
  of entries in the list.
\<close>

theorem runs_without_Delete:
  fixes xs :: "('k::default, 'v::default) call list"
  assumes "\<forall>x\<in>set xs. \<not> is_Delete x" "int (length xs) < 2 ^ 63 - 1"
  shows "\<exists>c. run (NewCache cap) xs = Returns c \<and> cache_inv c \<and>
           sint (Size c) = int (card (Keys c)) \<and> card (Keys c) = length (q c)"
proof -
  have "q (NewCache cap :: ('k, 'v) Cache) = []" by (simp add: NewCache_def init_def)
  then obtain c where "run (NewCache cap) xs = Returns c" "cache_inv c"
    using run_inv [OF NewCache_inv assms(1), of cap] assms(2) by auto
  then show ?thesis using cache_inv_Keys by blast
qed

section \<open>\<^verbatim>\<open>Delete\<close>\<close>

text \<open>
  C1. \<^verbatim>\<open>Delete\<close> of a present key takes the entry out of the list and the
  map and returns its value, but on no cache and for no key does it change
  \<open>size\<close> or the hand. After \<^verbatim>\<open>NewCache(5); Set("a", "A")\<close> the call
  \<^verbatim>\<open>Delete("a")\<close> returns \<^verbatim>\<open>"A"\<close>, the list and the map are empty, and \<^verbatim>\<open>Size()\<close>
  is 1 before and after.
\<close>

theorem Delete_keeps_size:
  fixes c :: "('k, 'v::default) Cache"
  shows
  "size_c (snd (Delete c k)) = size_c c \<and> hand (snd (Delete c k)) = hand c \<and>
   then_call (Sets (NewCache 5) [(''a'', ''A'')])
     (\<lambda>c. let (r, c1) = Delete c ''a''
          in Returns (r, Size c, Size c1, q c1, Keys c1))
   = Returns ((''A'', None), 1, 1, [], {})"
  by (simp add: run_defs Let_def split: option.splits)

text \<open>
  C2. After \<^verbatim>\<open>NewCache(5); Set("a", "A"); Set("b", "B"); Delete("a")\<close> the map
  holds the one key \<^verbatim>\<open>"b"\<close>, so \<^verbatim>\<open>Keys()\<close> has length 1, while \<^verbatim>\<open>Size()\<close>
  returns 2.
\<close>

theorem Size_differs_from_Keys_after_Delete:
  "then_call (Sets (NewCache 5) [(''a'', ''A''), (''b'', ''B'')])
     (\<lambda>c. let (r, c1) = Delete c ''a''
          in Returns (Size c1, Keys c1, card (Keys c1), card (Items c1)))
   = Returns (2, {''b''}, 1, 1)"
  by (simp add: run_defs Items_def)

text \<open>
  C3. After \<^verbatim>\<open>NewCache(5); Set("a", "A"); Delete("a")\<close> the cache holds no
  entry, but \<open>size\<close> is still 1: \<^verbatim>\<open>Evict()\<close> passes the emptiness test, takes
  \<^verbatim>\<open>q.Back()\<close>, which is \<^verbatim>\<open>nil\<close>, and panics on \<^verbatim>\<open>curr.Value\<close>. And after
  \<^verbatim>\<open>NewCache(5); Set("a", "A"); Set("b", "B"); Set("c", "C"); Evict()\<close>, which
  evicts \<^verbatim>\<open>"a"\<close> and leaves the hand at the entry of \<^verbatim>\<open>"b"\<close>, the call
  \<^verbatim>\<open>Delete("b")\<close> unlinks that entry and leaves the hand on it: the next
  \<^verbatim>\<open>Evict()\<close> starts at the unlinked entry and returns \<^verbatim>\<open>"b"\<close>, a key the cache
  no longer holds, and removes nothing.
\<close>

theorem Evict_panics_after_Delete:
  "then_call (Sets (NewCache 5) [(''a'', ''A'')])
     (\<lambda>c. let (r, c1) = Delete c ''a''
          in Returns (q c1, Keys c1, Size c1, Evict c1 = Panics))
   = Returns ([], {}, 1, True) \<and>
   then_call (Sets (NewCache 5) [(''a'', ''A''), (''b'', ''B''), (''c'', ''C'')])
     (\<lambda>c. then_call (Evict c)
        (\<lambda>(r1, c1). let (r2, c2) = Delete c1 ''b'' in
           then_call (Evict c2)
             (\<lambda>(r3, c3).
                Returns (r1, hand c1, r2, hand c2, q c2, Keys c2, r3, q c3, Keys c3, Size c3))))
   = Returns ((''a'', None), Some 1, (''B'', None), Some 1, [2], {''c''},
              (''b'', None), [2], {''c''}, 1)"
  by (simp add: run_defs)

section \<open>\<^verbatim>\<open>evict\<close>\<close>



text \<open>
  C5. On a fresh cache of capacity 3, after \<^verbatim>\<open>Set(A)\<close>, \<^verbatim>\<open>Set(B)\<close>, \<^verbatim>\<open>Set(C)\<close>,
  \<^verbatim>\<open>Set(A)\<close>, \<^verbatim>\<open>Get(B)\<close>, \<^verbatim>\<open>Get(C)\<close>, the call \<^verbatim>\<open>Evict()\<close> returns the key \<^verbatim>\<open>A\<close>
  and no error, whatever the values stored.
\<close>

theorem Evict_scenario_returns_A:
  "result_of
     (then_call (Sets (NewCache 3) [(''A'', v1), (''B'', v2), (''C'', v3), (''A'', v4)])
        (\<lambda>c. Evict (Gets c [''B'', ''C''])))
   = Some (''A'', None)"
  by (simp add: run_defs)

section \<open>\<^verbatim>\<open>Set\<close>\<close>



section \<open>\<^verbatim>\<open>Contains\<close> observes, \<^verbatim>\<open>Get\<close> touches\<close>

text \<open>
  C7. \<^verbatim>\<open>Contains\<close> answers whether the key is in the index and returns the
  cache unchanged, so any number of evictions after it gives what it gives
  without it. \<^verbatim>\<open>Get\<close> of a key in the index, at element \<open>e\<close>, sets the
  visited flag of \<open>e\<close>, and that can change the next victim: after
  \<^verbatim>\<open>NewCache(5); Set("a"); Set("b"); Set("c")\<close> an eviction returns \<^verbatim>\<open>"a"\<close>, also
  after \<^verbatim>\<open>Contains("a")\<close>, but after \<^verbatim>\<open>Get("a")\<close> it returns \<^verbatim>\<open>"b"\<close>.
\<close>

theorem Contains_observes_Get_touches:
  fixes c :: "('k::default, 'v::default) Cache"
  shows
  "Contains c k = (k \<in> Keys c, c) \<and>
   evict_times n (snd (Contains c k)) = evict_times n c \<and>
   (keysMap c k = Some e \<longrightarrow>
      snd (Get c k) = c\<lparr>nodes := (nodes c)(e := (nodes c e)\<lparr>visited := True\<rparr>)\<rparr>) \<and>
   result_of (then_call (Sets (NewCache 5) [(''a'', ''A''), (''b'', ''B''), (''c'', ''C'')])
     (\<lambda>c. Evict (snd (Contains c ''a'')))) = Some (''a'', None) \<and>
   result_of (then_call (Sets (NewCache 5) [(''a'', ''A''), (''b'', ''B''), (''c'', ''C'')])
     (\<lambda>c. Evict (snd (Get c ''a'')))) = Some (''b'', None)"
proof (intro conjI impI)
  show "Contains c k = (k \<in> Keys c, c)" by (auto simp: Contains_def Keys_def)
  show "evict_times n (snd (Contains c k)) = evict_times n c" by (simp add: Contains_def)
  show "snd (Get c k) = c\<lparr>nodes := (nodes c)(e := (nodes c e)\<lparr>visited := True\<rparr>)\<rparr>"
    if "keysMap c k = Some e" using that by (simp add: Get_def Let_def)
  show "result_of (then_call (Sets (NewCache 5) [(''a'', ''A''), (''b'', ''B''), (''c'', ''C'')])
     (\<lambda>c. Evict (snd (Contains c ''a'')))) = Some (''a'', None)"
    by (simp add: run_defs Contains_def)
  show "result_of (then_call (Sets (NewCache 5) [(''a'', ''A''), (''b'', ''B''), (''c'', ''C'')])
     (\<lambda>c. Evict (snd (Get c ''a'')))) = Some (''b'', None)"
    by (simp add: run_defs)
qed

theorem Contains_observes_Get_touches_witness:
  "(let c = insert_at_head (NewCache 5 :: (string, string) Cache) ''a'' ''A''
    in keysMap c ''a'' = Some 0 \<and> \<not> visited (nodes c 0) \<and>
       visited (nodes (snd (Get c ''a'')) 0) \<and>
       Contains c ''a'' = (True, c) \<and> Contains c ''b'' = (False, c))"
  using Contains_observes_Get_touches
     [of "insert_at_head (NewCache 5 :: (string, string) Cache) ''a'' ''A''" "''a''" 0 0]
   Contains_observes_Get_touches
     [of "insert_at_head (NewCache 5 :: (string, string) Cache) ''a'' ''A''" "''b''" 0 0]
  by (simp add: NewCache_def init_def insert_at_head_def Let_def Keys_def)

section \<open>\<^verbatim>\<open>Resize\<close>\<close>

text \<open>
  The difference \<open>size - n\<close> is taken in \<^verbatim>\<open>int64\<close>. For \<open>n\<close> the least \<^verbatim>\<open>int64\<close>
  and three entries it wraps to a negative number, and \<^verbatim>\<open>Resize\<close> evicts
  nothing.
\<close>

lemma Resize_difference_wraps:
  "Resize three_entries (- (2 ^ 63)) = Returns ([], three_entries\<lparr>capacity := - (2 ^ 63)\<rparr>)"
proof -
  have "\<not> capacity three_entries \<le>s - (2 ^ 63)"
    by (simp add: example_defs word_sle_eq)
  moreover have "\<not> 0 <s Size three_entries - (- (2 ^ 63))"
    by (simp add: example_defs Size_def word_sless_alt)
  ultimately show ?thesis by (simp add: Resize_def Resize_loop.simps)
qed



section \<open>Errors\<close>

text \<open>
  C9. A call that returns an error leaves the cache as it found it: \<^verbatim>\<open>Get\<close>
  and \<^verbatim>\<open>Delete\<close> fail only with \<^verbatim>\<open>ErrKeyNotFound\<close>, \<^verbatim>\<open>evict\<close> and \<^verbatim>\<open>Evict\<close> only
  with \<^verbatim>\<open>ErrEmptyCache\<close>, and the cache after the failed call is the cache
  before it.
\<close>

theorem errors_leave_state:
  fixes c :: "('k::default, 'v::default) Cache"
  shows
  "(Get c k = ((v, Some err), c1) \<longrightarrow> err = ErrKeyNotFound \<and> c1 = c) \<and>
   (Delete c k = ((v, Some err), c1) \<longrightarrow> err = ErrKeyNotFound \<and> c1 = c) \<and>
   (evict c = Returns ((k', Some err), c1) \<longrightarrow> err = ErrEmptyCache \<and> c1 = c) \<and>
   (Evict c = Returns ((k', Some err), c1) \<longrightarrow> err = ErrEmptyCache \<and> c1 = c)"
  by (auto simp: Get_def Delete_def evict_def Evict_def Let_def
           split: option.splits if_splits outcome.splits prod.splits)

theorem errors_leave_state_witness:
  "(let c = NewCache 5 :: (string, string) Cache
    in Get c ''a'' = (([], Some ErrKeyNotFound), c) \<and>
       Delete c ''a'' = (([], Some ErrKeyNotFound), c) \<and>
       evict c = Returns (([], Some ErrEmptyCache), c) \<and>
       Evict c = Returns (([], Some ErrEmptyCache), c))"
proof -
  let ?c = "NewCache 5 :: (string, string) Cache"
  obtain v1 e1 c1 where g: "Get ?c ''a'' = ((v1, Some e1), c1)"
    by (simp add: Get_def NewCache_def init_def)
  obtain v2 e2 c2 where d: "Delete ?c ''a'' = ((v2, Some e2), c2)"
    by (simp add: Delete_def NewCache_def init_def)
  obtain k3 e3 c3 where e: "evict ?c = Returns ((k3, Some e3), c3)"
    by (simp add: evict_def NewCache_def init_def)
  have e': "Evict ?c = Returns ((k3, Some e3), c3)" using e by (simp add: Evict_def)
  have "e1 = ErrKeyNotFound \<and> c1 = ?c" using errors_leave_state [of ?c "''a''" v1 e1 c1] g by simp
  moreover have "e2 = ErrKeyNotFound \<and> c2 = ?c"
    using errors_leave_state [of ?c "''a''" v2 e2 c2] d by simp
  moreover have "e3 = ErrEmptyCache \<and> c3 = ?c"
    using errors_leave_state [of ?c _ _ e3 c3 k3] e by simp
  moreover have "v1 = []" using g by (simp add: Get_def NewCache_def init_def default_list_def)
  moreover have "v2 = []" using d by (simp add: Delete_def NewCache_def init_def default_list_def)
  moreover have "k3 = []" using e by (simp add: evict_def NewCache_def init_def default_list_def)
  ultimately show ?thesis using g d e e' by simp
qed

text \<open>
  C10. A failing \<^verbatim>\<open>Get\<close> or \<^verbatim>\<open>Delete\<close> returns the zero value of the value
  type, and a failing \<^verbatim>\<open>evict\<close> or \<^verbatim>\<open>Evict\<close> the zero value of the key type.
\<close>

theorem errors_return_zero_values:
  fixes c :: "('k::default, 'v::default) Cache"
  shows
  "(Get c k = ((v, Some err), c1) \<longrightarrow> v = default) \<and>
   (Delete c k = ((v, Some err), c1) \<longrightarrow> v = default) \<and>
   (evict c = Returns ((k', Some err), c1) \<longrightarrow> k' = default) \<and>
   (Evict c = Returns ((k', Some err), c1) \<longrightarrow> k' = default)"
  by (auto simp: Get_def Delete_def evict_def Evict_def Let_def
           split: option.splits if_splits outcome.splits prod.splits)

theorem errors_return_zero_values_witness:
  "(\<exists>err c1. Get (NewCache 3 :: (string, string) Cache) ''x'' = (([], Some err), c1)) \<and>
   (\<exists>err c1. Delete (NewCache 3 :: (string, string) Cache) ''x'' = (([], Some err), c1)) \<and>
   (\<exists>err c1. Evict (NewCache 3 :: (string, string) Cache) = Returns (([], Some err), c1))"
proof -
  let ?c = "NewCache 3 :: (string, string) Cache"
  obtain v1 e1 c1 where g: "Get ?c ''x'' = ((v1, Some e1), c1)"
    by (simp add: Get_def NewCache_def init_def)
  obtain v2 e2 c2 where d: "Delete ?c ''x'' = ((v2, Some e2), c2)"
    by (simp add: Delete_def NewCache_def init_def)
  obtain k3 e3 c3 where e: "Evict ?c = Returns ((k3, Some e3), c3)"
    by (simp add: Evict_def evict_def NewCache_def init_def)
  have "v1 = default" using errors_return_zero_values [of ?c "''x''" v1 e1 c1] g by simp
  moreover have "v2 = default" using errors_return_zero_values [of ?c "''x''" v2 e2 c2] d by simp
  moreover have "k3 = default" using errors_return_zero_values [of ?c _ _ e3 c3 k3] e by simp
  ultimately show ?thesis using g d e by (auto simp: default_list_def)
qed

end
